theory Spec2Isabelle
  imports Complex_Main "HOL-Library.Signed_Division" "HOL-Library.Word"
begin

section \<open>Errors of the core\<close>

text \<open>
  The errors of the core that the definitions below raise (section 7 of the spec names
  \<open>PartitionError\<close> and \<open>ElementEvaluationError\<close>; \<open>SizeMismatch\<close> stands for its
  ``mismatched vector sizes'').  \<open>OutOfBounds\<close> and \<open>BadArrayLength\<close> are not errors of
  the library: the first stands for a read or write outside an allocated C array, which
  the model makes a value instead of leaving it undefined, the second for the exception
  of \<^verbatim>\<open>new T[n]\<close> with a negative \<open>n\<close>.
\<close>

datatype error =
  PartitionError | ElementEvaluationError | SizeMismatch | OutOfBounds | BadArrayLength

section \<open>C integers and arrays\<close>

text \<open>
  C's \<^verbatim>\<open>int\<close> is a 32-bit word read in two's complement (\<open>sint\<close>): \<open>+\<close> and
  \<open>*\<close> wrap around, as the compiled drivers do (the C standard leaves signed overflow
  undefined).

  \<^verbatim>\<open>new T[n]\<close> yields \<open>n\<close> cells of unspecified content.  The content is a
  parameter \<open>junk\<close> of the model, so nothing proved depends on it.  A negative size
  raises; memory is taken to suffice for every other size.  An array is read and written
  at a signed index, and an index outside the array is an error.
\<close>

type_synonym cint = "32 word"

definition new_array :: "cint \<Rightarrow> (nat \<Rightarrow> 'a) \<Rightarrow> error + 'a list" where
  "new_array n junk =
     (if sint n < 0 then Inl BadArrayLength else Inr (map junk [0..<nat (sint n)]))"

definition store :: "'a list \<Rightarrow> cint \<Rightarrow> 'a \<Rightarrow> error + 'a list" where
  "store a i v =
     (if 0 \<le> sint i \<and> sint i < int (length a) then Inr (a[nat (sint i) := v])
      else Inl OutOfBounds)"

definition load :: "'a list \<Rightarrow> cint \<Rightarrow> error + 'a" where
  "load a i =
     (if 0 \<le> sint i \<and> sint i < int (length a) then Inr (a ! nat (sint i))
      else Inl OutOfBounds)"

section \<open>The beam driver: connectivity of the quadratic beam mesh\<close>

text \<open>
  From \<^verbatim>\<open>examples/beam/beam.c\<close>, \<^verbatim>\<open>main\<close>:
  \<^verbatim>\<open>
  int nelems = 10;
  int nnodes = 2*nelems+1;
  ...
  TACSElement **elems = new TACSElement*[ nelems ];
  int *conn = new int[ 3*nelems ];
  int *ptr = new int[ nelems+1 ];

  ptr[0] = 0;
  for ( int i = 0; i < nelems; i++ ){
    elems[i] = beam;
    conn[ptr[i]] = 2*i;
    conn[ptr[i]+1] = 2*i+1;
    conn[ptr[i]+2] = 2*i+2;
    ptr[i+1] = ptr[i] + 3;
  }
  tacs->setElementConnectivity(conn, ptr);\<close>
  The number of elements is a constant of the driver; the model takes it as a parameter
  of type \<^verbatim>\<open>int\<close>.  Every product and sum is the 32-bit one, so \<open>3 * nelems\<close> and
  \<open>2 * nelems + 1\<close> wrap for large \<open>nelems\<close>, as in the driver.
\<close>

definition nnodes :: "cint \<Rightarrow> cint" where
  "nnodes nelems = 2 * nelems + 1"

record 'e mesh =
  elems :: "'e list"
  conn :: "cint list"
  ptr :: "cint list"

text \<open>One pass through the body of the loop, at index \<open>i\<close>.\<close>

definition mesh_body :: "'e \<Rightarrow> cint \<Rightarrow> 'e mesh \<Rightarrow> error + 'e mesh" where
  "mesh_body beam i m =
     (case store (elems m) i beam of Inl e \<Rightarrow> Inl e | Inr es \<Rightarrow>
      case load (ptr m) i of Inl e \<Rightarrow> Inl e | Inr p \<Rightarrow>
      case store (conn m) p (2 * i) of Inl e \<Rightarrow> Inl e | Inr c1 \<Rightarrow>
      case store c1 (p + 1) (2 * i + 1) of Inl e \<Rightarrow> Inl e | Inr c2 \<Rightarrow>
      case store c2 (p + 2) (2 * i + 2) of Inl e \<Rightarrow> Inl e | Inr c3 \<Rightarrow>
      case store (ptr m) (i + 1) (p + 3) of Inl e \<Rightarrow> Inl e | Inr p' \<Rightarrow>
      Inr \<lparr>elems = es, conn = c3, ptr = p'\<rparr>)"

text \<open>
  The loop.  It ends for every \<open>nelems\<close>: while \<open>i < nelems\<close> holds, \<open>i\<close> is below
  the largest \<^verbatim>\<open>int\<close> and \<open>i + 1\<close> does not wrap.
\<close>

function mesh_loop :: "'e \<Rightarrow> cint \<Rightarrow> cint \<Rightarrow> 'e mesh \<Rightarrow> error + 'e mesh" where
  "mesh_loop beam nelems i m =
     (if sint i < sint nelems
      then (case mesh_body beam i m of Inl e \<Rightarrow> Inl e
            | Inr m' \<Rightarrow> mesh_loop beam nelems (i + 1) m')
      else Inr m)"
  by pat_completeness auto
termination
proof (relation "measure (\<lambda>(beam, nelems, i, m). nat (sint nelems - sint i))", goal_cases)
  case 1
  show ?case by simp
next
  case (2 beam nelems i m m')
  have "sint nelems \<le> 2147483647" using sint_lt [of nelems] by simp
  moreover have "- 2147483648 \<le> sint i" using sint_ge [of i] by simp
  ultimately have "sint (i + 1) = sint i + 1"
    using 2(1) by (simp add: sint_word_ariths signed_take_bit_int_eq_self)
  with 2(1) show ?case by simp
qed

declare mesh_loop.simps [simp del]

definition beam_mesh ::
  "'e \<Rightarrow> cint \<Rightarrow> (nat \<Rightarrow> 'e) \<Rightarrow> (nat \<Rightarrow> cint) \<Rightarrow> (nat \<Rightarrow> cint) \<Rightarrow> error + 'e mesh" where
  "beam_mesh beam nelems junk_e junk_c junk_p =
     (case new_array nelems junk_e of Inl e \<Rightarrow> Inl e | Inr es \<Rightarrow>
      case new_array (3 * nelems) junk_c of Inl e \<Rightarrow> Inl e | Inr cs \<Rightarrow>
      case new_array (nelems + 1) junk_p of Inl e \<Rightarrow> Inl e | Inr ps \<Rightarrow>
      case store ps 0 0 of Inl e \<Rightarrow> Inl e | Inr p0 \<Rightarrow>
      mesh_loop beam nelems 0 \<lparr>elems = es, conn = cs, ptr = p0\<rparr>)"

text \<open>
  Modelled from the spec: the check of \<^verbatim>\<open>setElementConnectivity\<close>, whose code is not
  among the sources.  Section 4.1: ``Fails with \<open>PartitionError\<close> if any element
  references a node id outside \<open>[0, totalNodes)\<close>''.  Element \<open>e\<close> references the
  entries \<open>ptr[e] ..< ptr[e+1]\<close> of \<open>conn\<close>.
\<close>

definition element_nodes :: "cint list \<Rightarrow> cint list \<Rightarrow> nat \<Rightarrow> cint list" where
  "element_nodes cs ps e = map (\<lambda>k. cs ! k) [nat (sint (ps ! e))..<nat (sint (ps ! Suc e))]"

definition setElementConnectivity_check :: "cint \<Rightarrow> cint list \<Rightarrow> cint list \<Rightarrow> error + unit" where
  "setElementConnectivity_check totalNodes cs ps =
     (if list_ex (\<lambda>e. list_ex (\<lambda>n. sint n < 0 \<or> sint totalNodes \<le> sint n)
                         (element_nodes cs ps e))
           [0..<length ps - 1]
      then Inl PartitionError else Inr ())"

text \<open>
  The invariant of the loop before the pass at index \<open>i\<close>: the three arrays have the
  sizes they were allocated with, \<open>ptr\<close> is filled up to index \<open>i\<close> and \<open>conn\<close> holds
  the nodes of the elements below \<open>i\<close>.
\<close>

definition mesh_inv :: "cint \<Rightarrow> int \<Rightarrow> 'e mesh \<Rightarrow> bool" where
  "mesh_inv nelems i m \<longleftrightarrow>
     length (elems m) = nat (sint nelems) \<and> length (conn m) = nat (3 * sint nelems) \<and>
     length (ptr m) = nat (sint nelems + 1) \<and>
     (\<forall>k. 0 \<le> k \<and> k \<le> i \<longrightarrow> sint (ptr m ! nat k) = 3 * k) \<and>
     (\<forall>k. 0 \<le> k \<and> k < i \<longrightarrow>
        sint (conn m ! nat (3 * k)) = 2 * k \<and> sint (conn m ! nat (3 * k + 1)) = 2 * k + 1 \<and>
        sint (conn m ! nat (3 * k + 2)) = 2 * k + 2)"

section \<open>The tutorial driver: ownership ranges of the nodes\<close>

text \<open>
  From \<^verbatim>\<open>examples/tutorial/tutorial.c\<close>, \<^verbatim>\<open>main\<close>, where \<open>N\<close> is the total
  number of nodes \<^verbatim>\<open>(nx+1)*(ny+1)\<close>, \<open>sz\<close> the size of the communicator and
  \<open>rank\<close> the rank of the process:
  \<^verbatim>\<open>
  int nodesPerProc = ((nx+1)*(ny+1))/size;
  int numOwnedNodes = nodesPerProc;
  if (rank == size-1){
    numOwnedNodes = (nx+1)*(ny+1) - nodesPerProc*(size-1);
  }
  ...
  int firstNode = rank*nodesPerProc;
  int lastNode = (rank+1)*nodesPerProc;
  if (rank == size-1){
    lastNode = (nx+1)*(ny+1);
  }\<close>
  The process of rank \<open>rank\<close> owns the nodes \<open>firstNode ..< lastNode\<close> (the loop
  that sets the node locations runs over exactly this range).  C's \<^verbatim>\<open>/\<close> truncates
  towards zero: it is \<open>sdiv\<close>.  The product \<^verbatim>\<open>(nx+1)*(ny+1)\<close> is the 32-bit one
  (\<open>totalNodes\<close>); the ownership arithmetic is stated over the node count it yields,
  and \<open>partition_no_wrap\<close> below shows that it stays inside \<^verbatim>\<open>int\<close>.
\<close>

definition totalNodes :: "cint \<Rightarrow> cint \<Rightarrow> cint" where
  "totalNodes nx ny = (nx + 1) * (ny + 1)"

definition nodesPerProc :: "int \<Rightarrow> int \<Rightarrow> int" where
  "nodesPerProc N sz = N sdiv sz"

definition numOwnedNodes :: "int \<Rightarrow> int \<Rightarrow> int \<Rightarrow> int" where
  "numOwnedNodes N sz rank =
     (if rank = sz - 1 then N - nodesPerProc N sz * (sz - 1) else nodesPerProc N sz)"

definition firstNode :: "int \<Rightarrow> int \<Rightarrow> int \<Rightarrow> int" where
  "firstNode N sz rank = rank * nodesPerProc N sz"

definition lastNode :: "int \<Rightarrow> int \<Rightarrow> int \<Rightarrow> int" where
  "lastNode N sz rank = (if rank = sz - 1 then N else (rank + 1) * nodesPerProc N sz)"

section \<open>The element assembler\<close>

text \<open>
  Modelled from the spec: the assembler (\<^verbatim>\<open>TACSAssembler\<close>), its vectors and its
  matrices, whose code is not among the sources; the drivers only call
  \<^verbatim>\<open>addBCs\<close>, \<^verbatim>\<open>assembleRes\<close> and \<^verbatim>\<open>assembleJacobian\<close>.  Sections 3, 4.3
  and 4.4 of the spec are followed sentence by sentence; the places are quoted at each
  definition.

  Scalars (\<^verbatim>\<open>TacsScalar\<close>) are taken as real numbers: rounding is outside this model.
  A local array of an element (indexed by local degree of freedom) is a function, a global
  vector is the list of its entries by global degree of freedom, and a global matrix maps a
  pair (row, column) to its entry, zero outside the nonzero structure.
\<close>

type_synonym scalar = real
type_synonym lvec = "nat \<Rightarrow> scalar"
type_synonym lmat = "nat \<Rightarrow> nat \<Rightarrow> scalar"
type_synonym gvec = "scalar list"
type_synonym gmat = "nat \<times> nat \<Rightarrow> scalar"

text \<open>
  Modelled from the spec: the element and its external callable.  Section 3: an element
  is an ``ordered list of node ids (local connectivity), a reference to an external
  element-evaluation callable''.  Section 6: the callable, ``given local gathered
  state/velocity/acceleration'', ``returns a local residual vector, local
  stiffness/damping/mass blocks''.  Section 4.4: it may signal an invalid state; that is
  the result \<open>None\<close>.
\<close>

record element =
  nodes :: "nat list"
  evalResidual :: "lvec \<Rightarrow> lvec \<Rightarrow> lvec \<Rightarrow> lvec option"
  evalJacobian :: "lvec \<Rightarrow> lvec \<Rightarrow> lvec \<Rightarrow> (lmat \<times> lmat \<times> lmat) option"

text \<open>
  Modelled from the spec: the assembler's data.  \<open>procs\<close> lists, process by process,
  the local elements in traversal order; \<open>constrained\<close> lists the constrained global
  degrees of freedom.  Degree of freedom \<open>v\<close> of node \<open>n\<close> has the global index
  \<open>n * varsPerNode + v\<close> (section 3: a vector is an ``array of
  \<open>varsPerNode \<times> numLocalNodes\<close> owned entries'').  \<open>finalized\<close> is the invariant of
  section 3 and the check of section 4.1: no element references a node id outside
  \<open>[0, numNodes)\<close>.
\<close>

record assembler =
  varsPerNode :: nat
  numNodes :: nat
  procs :: "element list list"
  constrained :: "nat list"

definition ndof :: "assembler \<Rightarrow> nat" where
  "ndof a = varsPerNode a * numNodes a"

definition finalized :: "assembler \<Rightarrow> bool" where
  "finalized a \<longleftrightarrow>
     list_all (list_all (\<lambda>e. list_all (\<lambda>n. n < numNodes a) (nodes e))) (procs a)"

text \<open>
  Modelled from the spec: gather and add-mode scatter through the connectivity
  (sections 4.3 and 4.4: the element's local state is ``gathered via connectivity'', the
  local residual is accumulated ``into the global vector via add-mode'').
\<close>

definition dofs :: "nat \<Rightarrow> nat list \<Rightarrow> nat list" where
  "dofs vpn ns = concat (map (\<lambda>n. map (\<lambda>v. n * vpn + v) [0..<vpn]) ns)"

definition gather :: "nat list \<Rightarrow> gvec \<Rightarrow> lvec" where
  "gather ds x = (\<lambda>k. if k < length ds then x ! (ds ! k) else 0)"

definition add_local :: "nat list \<Rightarrow> lvec \<Rightarrow> gvec \<Rightarrow> gvec" where
  "add_local ds r x = fold (\<lambda>k y. y[ds ! k := y ! (ds ! k) + r k]) [0..<length ds] x"

text \<open>
  Modelled from the spec: \<^verbatim>\<open>assembleResidual\<close>.  Section 4.4: ``for every local
  element, invokes the external element callable with the element's local
  state/velocity/acceleration (gathered via connectivity, including ghost values already
  scattered), accumulates the returned local residual into the global vector via add-mode,
  then reduces ghost contributions to owners, then zeros rows at constrained dofs''.
  Every process accumulates over its own elements (\<open>add_residuals\<close>, from the zero
  vector), the reduction adds the processes' contributions entry by entry
  (\<open>reduce_vec\<close>), and \<open>applyBoundaryConditions\<close> (section 4.3: ``zero out \<dots> rows
  corresponding to constrained dofs'') zeroes the constrained entries.  An element that
  signals an invalid state ends the assembly with \<open>ElementEvaluationError\<close>
  (section 4.4); vectors of the wrong size are refused (section 7: mismatched vector sizes
  are thrown as errors).
\<close>

fun add_residuals ::
  "nat \<Rightarrow> element list \<Rightarrow> gvec \<Rightarrow> gvec \<Rightarrow> gvec \<Rightarrow> gvec \<Rightarrow> error + gvec" where
  "add_residuals vpn [] u v w r = Inr r"
| "add_residuals vpn (e # es) u v w r =
     (let ds = dofs vpn (nodes e) in
      case evalResidual e (gather ds u) (gather ds v) (gather ds w) of
        None \<Rightarrow> Inl ElementEvaluationError
      | Some lr \<Rightarrow> add_residuals vpn es u v w (add_local ds lr r))"

fun local_residuals ::
  "nat \<Rightarrow> nat \<Rightarrow> element list list \<Rightarrow> gvec \<Rightarrow> gvec \<Rightarrow> gvec \<Rightarrow> error + gvec list" where
  "local_residuals vpn n [] u v w = Inr []"
| "local_residuals vpn n (es # ps) u v w =
     (case add_residuals vpn es u v w (replicate n 0) of
        Inl err \<Rightarrow> Inl err
      | Inr r \<Rightarrow> (case local_residuals vpn n ps u v w of
                   Inl err \<Rightarrow> Inl err
                 | Inr rs \<Rightarrow> Inr (r # rs)))"

definition reduce_vec :: "nat \<Rightarrow> gvec list \<Rightarrow> gvec" where
  "reduce_vec n rs = fold (\<lambda>r acc. map2 (+) acc r) rs (replicate n 0)"

definition applyBoundaryConditions :: "assembler \<Rightarrow> gvec \<Rightarrow> gvec" where
  "applyBoundaryConditions a x = fold (\<lambda>d y. y[d := 0]) (constrained a) x"

definition assembleResidual :: "assembler \<Rightarrow> gvec \<Rightarrow> gvec \<Rightarrow> gvec \<Rightarrow> error + gvec" where
  "assembleResidual a u v w =
     (if length u \<noteq> ndof a \<or> length v \<noteq> ndof a \<or> length w \<noteq> ndof a then Inl SizeMismatch
      else case local_residuals (varsPerNode a) (ndof a) (procs a) u v w of
        Inl err \<Rightarrow> Inl err
      | Inr rs \<Rightarrow> Inr (applyBoundaryConditions a (reduce_vec (ndof a) rs)))"

text \<open>
  Modelled from the spec: \<^verbatim>\<open>assembleJacobian\<close>.  Section 4.4: ``identical traversal,
  but each element returns three local operator blocks (stiffness-like, damping-like,
  mass-like); the assembled entry is \<open>alpha\<cdot>K + beta\<cdot>C + gamma\<cdot>M\<close>'', and
  ``Constrained rows/columns are replaced by an identity row (diagonal one, zero
  elsewhere)''.  \<open>assembleMatrix\<close> is the assembly before the boundary conditions are
  applied.
\<close>

definition add_block :: "nat list \<Rightarrow> lmat \<Rightarrow> gmat \<Rightarrow> gmat" where
  "add_block ds B m =
     fold (\<lambda>k m. fold (\<lambda>l m. m((ds ! k, ds ! l) := m (ds ! k, ds ! l) + B k l)) [0..<length ds] m)
       [0..<length ds] m"

fun add_jacobians ::
  "nat \<Rightarrow> scalar \<Rightarrow> scalar \<Rightarrow> scalar \<Rightarrow> element list \<Rightarrow> gvec \<Rightarrow> gvec \<Rightarrow> gvec \<Rightarrow> gmat \<Rightarrow> error + gmat" where
  "add_jacobians vpn alpha beta gamma [] u v w m = Inr m"
| "add_jacobians vpn alpha beta gamma (e # es) u v w m =
     (let ds = dofs vpn (nodes e) in
      case evalJacobian e (gather ds u) (gather ds v) (gather ds w) of
        None \<Rightarrow> Inl ElementEvaluationError
      | Some (K, C, M) \<Rightarrow>
          add_jacobians vpn alpha beta gamma es u v w
            (add_block ds (\<lambda>k l. alpha * K k l + beta * C k l + gamma * M k l) m))"

fun local_jacobians ::
  "nat \<Rightarrow> scalar \<Rightarrow> scalar \<Rightarrow> scalar \<Rightarrow> element list list \<Rightarrow> gvec \<Rightarrow> gvec \<Rightarrow> gvec \<Rightarrow> error + gmat list" where
  "local_jacobians vpn alpha beta gamma [] u v w = Inr []"
| "local_jacobians vpn alpha beta gamma (es # ps) u v w =
     (case add_jacobians vpn alpha beta gamma es u v w (\<lambda>p. 0) of
        Inl err \<Rightarrow> Inl err
      | Inr m \<Rightarrow> (case local_jacobians vpn alpha beta gamma ps u v w of
                   Inl err \<Rightarrow> Inl err
                 | Inr ms \<Rightarrow> Inr (m # ms)))"

definition reduce_mat :: "gmat list \<Rightarrow> gmat" where
  "reduce_mat ms = fold (\<lambda>m acc. (\<lambda>p. acc p + m p)) ms (\<lambda>p. 0)"

definition applyBCs_mat :: "nat list \<Rightarrow> gmat \<Rightarrow> gmat" where
  "applyBCs_mat cs m =
     fold (\<lambda>d m. (\<lambda>(i, j). if i = d \<or> j = d then (if i = j then 1 else 0) else m (i, j))) cs m"

definition assembleMatrix ::
  "assembler \<Rightarrow> scalar \<Rightarrow> scalar \<Rightarrow> scalar \<Rightarrow> gvec \<Rightarrow> gvec \<Rightarrow> gvec \<Rightarrow> error + gmat" where
  "assembleMatrix a alpha beta gamma u v w =
     (if length u \<noteq> ndof a \<or> length v \<noteq> ndof a \<or> length w \<noteq> ndof a then Inl SizeMismatch
      else case local_jacobians (varsPerNode a) alpha beta gamma (procs a) u v w of
        Inl err \<Rightarrow> Inl err
      | Inr ms \<Rightarrow> Inr (reduce_mat ms))"

definition assembleJacobian ::
  "assembler \<Rightarrow> scalar \<Rightarrow> scalar \<Rightarrow> scalar \<Rightarrow> gvec \<Rightarrow> gvec \<Rightarrow> gvec \<Rightarrow> error + gmat" where
  "assembleJacobian a alpha beta gamma u v w =
     (case assembleMatrix a alpha beta gamma u v w of
        Inl err \<Rightarrow> Inl err
      | Inr m \<Rightarrow> Inr (applyBCs_mat (constrained a) m))"

text \<open>
  The claim's own words, as a second definition to compare the assembly with: the sum of
  the entries of one kind of block (stiffness-like, damping-like or mass-like), over all
  elements of all processes, that are scattered to the global entry \<open>p\<close>.
\<close>

definition block_entry :: "nat list \<Rightarrow> lmat \<Rightarrow> nat \<times> nat \<Rightarrow> scalar" where
  "block_entry ds B p =
     (\<Sum>k\<leftarrow>[0..<length ds]. \<Sum>l\<leftarrow>[0..<length ds]. if (ds ! k, ds ! l) = p then B k l else 0)"

definition contribution ::
  "(lmat \<times> lmat \<times> lmat \<Rightarrow> lmat) \<Rightarrow> nat \<Rightarrow> gvec \<Rightarrow> gvec \<Rightarrow> gvec \<Rightarrow> element \<Rightarrow> nat \<times> nat \<Rightarrow> scalar" where
  "contribution sel vpn u v w e p =
     (let ds = dofs vpn (nodes e) in
      case evalJacobian e (gather ds u) (gather ds v) (gather ds w) of
        None \<Rightarrow> 0
      | Some KCM \<Rightarrow> block_entry ds (sel KCM) p)"

definition scattered ::
  "(lmat \<times> lmat \<times> lmat \<Rightarrow> lmat) \<Rightarrow> assembler \<Rightarrow> gvec \<Rightarrow> gvec \<Rightarrow> gvec \<Rightarrow> nat \<times> nat \<Rightarrow> scalar" where
  "scattered sel a u v w p =
     (\<Sum>e\<leftarrow>concat (procs a). contribution sel (varsPerNode a) u v w e p)"

definition stiffness :: "lmat \<times> lmat \<times> lmat \<Rightarrow> lmat" where "stiffness KCM = fst KCM"
definition damping :: "lmat \<times> lmat \<times> lmat \<Rightarrow> lmat" where "damping KCM = fst (snd KCM)"
definition mass :: "lmat \<times> lmat \<times> lmat \<Rightarrow> lmat" where "mass KCM = snd (snd KCM)"

text \<open>
  Modelled from the spec: the operations of the round trip, whose code is not among the
  sources.  Section 4.5: a matrix has ``\<open>multiply(Vector x) \<rightarrow> Vector y\<close>''; section 4.3:
  a vector has ``\<open>axpy\<close>, \<open>dot\<close>, \<open>norm\<close>''.  The tutorial driver chains them as
  \<^verbatim>\<open>kmat->mult(ans, tmp); tmp->axpy(-1.0, res); norm = tmp->norm();\<close>
  \<open>mult n A x\<close> is the product of the \<open>n \<times> n\<close> matrix \<open>A\<close> with \<open>x\<close>,
  \<open>axpy alpha x y\<close> is \<open>y + alpha\<cdot>x\<close>, and \<open>norm2\<close> is the Euclidean norm.
\<close>

definition mult :: "nat \<Rightarrow> gmat \<Rightarrow> gvec \<Rightarrow> gvec" where
  "mult n A x = map (\<lambda>i. \<Sum>j\<leftarrow>[0..<n]. A (i, j) * x ! j) [0..<n]"








text \<open>
  A concrete assembler to evaluate the definitions on: three nodes with one variable
  each, two two-node elements on two processes (node 1 is shared), node 0 constrained.
\<close>

definition bar :: "nat \<Rightarrow> nat \<Rightarrow> real \<Rightarrow> element" where
  "bar i j k = \<lparr>nodes = [i, j],
     evalResidual = (\<lambda>u v w. Some (\<lambda>a. if a = 0 then k * (u 0 - u 1) + w 0
                                      else if a = 1 then k * (u 1 - u 0) + w 1 else 0)),
     evalJacobian = (\<lambda>u v w. Some ((\<lambda>a b. if a = b then k else - k), (\<lambda>a b. 0),
                                    (\<lambda>a b. if a = b then 1 else 0)))\<rparr>"

definition two_bars :: assembler where
  "two_bars =
     \<lparr>varsPerNode = 1, numNodes = 3, procs = [[bar 0 1 2], [bar 1 2 3]], constrained = [0]\<rparr>"

section \<open>Proofs: the beam mesh\<close>

text \<open>Sums and products of small values do not wrap.\<close>

lemma sint_bounds32: "- 2147483648 \<le> sint (a :: cint)" "sint (a :: cint) \<le> 2147483647"
  using sint_ge [of a] sint_lt [of a] by simp_all

lemma sint_add_small:
  "- 2147483648 \<le> sint a + sint b \<Longrightarrow> sint a + sint b \<le> 2147483647 \<Longrightarrow>
   sint (a + b :: cint) = sint a + sint b"
  by (simp add: sint_word_ariths signed_take_bit_int_eq_self)

lemma sint_mult_small:
  "- 2147483648 \<le> sint a * sint b \<Longrightarrow> sint a * sint b \<le> 2147483647 \<Longrightarrow>
   sint (a * b :: cint) = sint a * sint b"
  by (simp add: sint_word_ariths signed_take_bit_int_eq_self)

lemma sint_Suc_below: "sint (i :: cint) < sint (n :: cint) \<Longrightarrow> sint (i + 1) = sint i + 1"
  using sint_bounds32 [of i] sint_bounds32 [of n] by (simp add: sint_add_small)

lemma sint_small_exprs:
  assumes "0 \<le> sint (i :: cint)" "sint i < sint (nelems :: cint)" "3 * sint nelems \<le> 2147483647"
    and "sint (p :: cint) = 3 * sint i"
  shows "sint (2 * i) = 2 * sint i" "sint (2 * i + 1) = 2 * sint i + 1"
    "sint (2 * i + 2) = 2 * sint i + 2" "sint (p + 1) = 3 * sint i + 1"
    "sint (p + 2) = 3 * sint i + 2" "sint (p + 3) = 3 * sint i + 3" "sint (i + 1) = sint i + 1"
proof -
  show a: "sint (2 * i) = 2 * sint i"
    using assms(1-3) by (subst sint_mult_small) simp_all
  show "sint (2 * i + 1) = 2 * sint i + 1"
    using assms(1-3) a by (subst sint_add_small) simp_all
  show "sint (2 * i + 2) = 2 * sint i + 2"
    using assms(1-3) a by (subst sint_add_small) simp_all
  show "sint (p + 1) = 3 * sint i + 1"
    using assms by (subst sint_add_small) simp_all
  show "sint (p + 2) = 3 * sint i + 2"
    using assms by (subst sint_add_small) simp_all
  show "sint (p + 3) = 3 * sint i + 3"
    using assms by (subst sint_add_small) simp_all
  show "sint (i + 1) = sint i + 1"
    by (rule sint_Suc_below [OF assms(2)])
qed

lemma mesh_body_inv:
  assumes i0: "0 \<le> sint i" and lt: "sint i < sint nelems"
    and bound: "3 * sint nelems \<le> 2147483647" and inv: "mesh_inv nelems (sint i) m"
  shows "\<exists>m'. mesh_body beam i m = Inr m' \<and> mesh_inv nelems (sint i + 1) m'"
proof -
  define I where "I = sint i"
  define p where "p = ptr m ! nat I"
  from inv have le: "length (elems m) = nat (sint nelems)" "length (conn m) = nat (3 * sint nelems)"
    "length (ptr m) = nat (sint nelems + 1)"
    and pk: "\<And>k. 0 \<le> k \<Longrightarrow> k \<le> I \<Longrightarrow> sint (ptr m ! nat k) = 3 * k"
    and ck: "\<And>k. 0 \<le> k \<Longrightarrow> k < I \<Longrightarrow> sint (conn m ! nat (3 * k)) = 2 * k \<and>
        sint (conn m ! nat (3 * k + 1)) = 2 * k + 1 \<and> sint (conn m ! nat (3 * k + 2)) = 2 * k + 2"
    by (auto simp: mesh_inv_def I_def)
  from pk [of I] i0 have sp: "sint p = 3 * sint i" by (simp add: p_def I_def)
  note s = sint_small_exprs [OF i0 lt bound sp]
  define m' where "m' = \<lparr>elems = (elems m)[nat I := beam],
      conn = (conn m)[nat (3 * I) := 2 * i, nat (3 * I + 1) := 2 * i + 1, nat (3 * I + 2) := 2 * i + 2],
      ptr = (ptr m)[nat (I + 1) := p + 3]\<rparr>"
  have I: "0 \<le> I" "I < sint nelems" using i0 lt by (simp_all add: I_def)
  have b: "mesh_body beam i m = Inr m'"
    using I le sp s
    by (simp add: mesh_body_def load_def store_def m'_def I_def [symmetric] p_def [symmetric])
  have "mesh_inv nelems (I + 1) m'"
    unfolding mesh_inv_def
  proof (intro conjI allI impI)
    fix k :: int assume k: "0 \<le> k \<and> k \<le> I + 1"
    show "sint (ptr m' ! nat k) = 3 * k"
    proof (cases "k = I + 1")
      case True
      then show ?thesis using I le s(6) by (simp add: m'_def I_def)
    next
      case False
      with k have "k \<le> I" by simp
      moreover from this I(1) k have "nat k \<noteq> nat (I + 1)" by simp
      ultimately show ?thesis using pk [of k] k by (simp add: m'_def)
    qed
  next
    fix k :: int assume k: "0 \<le> k \<and> k < I + 1"
    have ne: "k < I \<Longrightarrow> nat (3*k) \<noteq> nat (3*I) \<and> nat (3*k) \<noteq> nat (3*I+1) \<and> nat (3*k) \<noteq> nat (3*I+2)
      \<and> nat (3*k+1) \<noteq> nat (3*I) \<and> nat (3*k+1) \<noteq> nat (3*I+1) \<and> nat (3*k+1) \<noteq> nat (3*I+2)
      \<and> nat (3*k+2) \<noteq> nat (3*I) \<and> nat (3*k+2) \<noteq> nat (3*I+1) \<and> nat (3*k+2) \<noteq> nat (3*I+2)"
      using k I(1) by (simp add: nat_eq_iff)
    have inb: "nat (3*I) < length (conn m)" "nat (3*I+1) < length (conn m)" "nat (3*I+2) < length (conn m)"
      using I le by auto
    have "sint (conn m' ! nat (3 * k)) = 2 * k \<and> sint (conn m' ! nat (3 * k + 1)) = 2 * k + 1 \<and>
          sint (conn m' ! nat (3 * k + 2)) = 2 * k + 2"
    proof (cases "k = I")
      case True
      have "nat (3*I) \<noteq> nat (3*I+1)" "nat (3*I) \<noteq> nat (3*I+2)" "nat (3*I+1) \<noteq> nat (3*I+2)"
        using I(1) by (simp_all add: nat_eq_iff)
      then show ?thesis using True inb s(1-3) by (simp add: m'_def I_def)
    next
      case False
      with k have "k < I" by simp
      from ne [OF this] ck [of k] k \<open>k < I\<close> show ?thesis by (simp add: m'_def)
    qed
    then show "sint (conn m' ! nat (3 * k)) = 2 * k" "sint (conn m' ! nat (3 * k + 1)) = 2 * k + 1"
      "sint (conn m' ! nat (3 * k + 2)) = 2 * k + 2"
      by simp_all
  qed (simp_all add: m'_def le)
  with b show ?thesis by (auto simp: I_def)
qed

lemma mesh_loop_inv:
  "0 \<le> sint i \<Longrightarrow> sint i \<le> sint nelems \<Longrightarrow> 3 * sint nelems \<le> 2147483647 \<Longrightarrow>
   mesh_inv nelems (sint i) m \<Longrightarrow>
   \<exists>m'. mesh_loop beam nelems i m = Inr m' \<and> mesh_inv nelems (sint nelems) m'"
proof (induction beam nelems i m rule: mesh_loop.induct)
  case (1 beam nelems i m)
  show ?case
  proof (cases "sint i < sint nelems")
    case True
    from mesh_body_inv [OF "1.prems"(1) True "1.prems"(3,4)] obtain m1
      where m1: "mesh_body beam i m = Inr m1" "mesh_inv nelems (sint i + 1) m1" by blast
    have s: "sint (i + 1) = sint i + 1" by (rule sint_Suc_below [OF True])
    from "1.IH" [OF True m1(1)] "1.prems"(1,3) True m1(2) s
    obtain m' where "mesh_loop beam nelems (i + 1) m1 = Inr m'" "mesh_inv nelems (sint nelems) m'"
      by auto
    then show ?thesis using True m1(1) by (subst mesh_loop.simps) simp
  next
    case False
    with "1.prems" have "sint i = sint nelems" by simp
    then show ?thesis using "1.prems"(4) by (subst mesh_loop.simps) simp
  qed
qed

lemma beam_mesh_inv:
  assumes "0 \<le> sint nelems" "3 * sint nelems \<le> 2147483647"
  shows "\<exists>m. beam_mesh beam nelems je jc jp = Inr m \<and> mesh_inv nelems (sint nelems) m"
proof -
  have s3: "sint (3 * nelems) = 3 * sint nelems"
    using assms by (subst sint_mult_small) simp_all
  have s1: "sint (nelems + 1) = sint nelems + 1"
    using assms by (subst sint_add_small) simp_all
  define p0 where "p0 = (map jp [0..<nat (sint nelems + 1)])[0 := 0]"
  define m0 where "m0 = \<lparr>elems = map je [0..<nat (sint nelems)],
    conn = map jc [0..<nat (3 * sint nelems)], ptr = p0\<rparr>"
  have "mesh_inv nelems (sint (0 :: cint)) m0"
    using assms by (auto simp: mesh_inv_def m0_def p0_def)
  from mesh_loop_inv [OF _ _ assms(2) this, of beam] assms(1) obtain m where
    "mesh_loop beam nelems 0 m0 = Inr m" "mesh_inv nelems (sint nelems) m" by auto
  then show ?thesis using assms s3 s1
    by (auto simp: beam_mesh_def new_array_def store_def m0_def p0_def)
qed

lemma mesh_inv_conn_range:
  assumes "mesh_inv nelems (sint nelems) m" "j < length (conn m)"
  shows "0 \<le> sint (conn m ! j) \<and> sint (conn m ! j) < 2 * sint nelems + 1"
proof -
  from assms have len: "length (conn m) = nat (3 * sint nelems)"
    and ck: "\<And>k. 0 \<le> k \<Longrightarrow> k < sint nelems \<Longrightarrow> sint (conn m ! nat (3 * k)) = 2 * k \<and>
        sint (conn m ! nat (3 * k + 1)) = 2 * k + 1 \<and> sint (conn m ! nat (3 * k + 2)) = 2 * k + 2"
    by (auto simp: mesh_inv_def)
  define k where "k = int j div 3"
  have k: "0 \<le> k" "k < sint nelems" using assms(2) len by (auto simp: k_def)
  have r: "int j mod 3 = 0 \<or> int j mod 3 = 1 \<or> int j mod 3 = 2" by presburger
  have "int j = 3 * k + int j mod 3" by (simp add: k_def)
  with r have "int j = 3 * k \<or> int j = 3 * k + 1 \<or> int j = 3 * k + 2" by auto
  then have "j = nat (3 * k) \<or> j = nat (3 * k + 1) \<or> j = nat (3 * k + 2)"
    by (metis nat_int)
  with ck [OF k] k show ?thesis by auto
qed

lemma sint_nnodes:
  assumes "0 \<le> sint nelems" "3 * sint nelems \<le> 2147483647"
  shows "sint (nnodes nelems) = 2 * sint nelems + 1"
proof -
  have "sint (2 * nelems) = 2 * sint nelems"
    using assms by (subst sint_mult_small) simp_all
  then show ?thesis
    unfolding nnodes_def using assms by (subst sint_add_small) simp_all
qed

lemma mesh_inv_check:
  assumes "0 \<le> sint nelems" "3 * sint nelems \<le> 2147483647" "mesh_inv nelems (sint nelems) m"
  shows "setElementConnectivity_check (nnodes nelems) (conn m) (ptr m) = Inr ()"
proof -
  from assms(3) have len: "length (conn m) = nat (3 * sint nelems)"
    "length (ptr m) = nat (sint nelems + 1)"
    and pk: "\<And>k. 0 \<le> k \<Longrightarrow> k \<le> sint nelems \<Longrightarrow> sint (ptr m ! nat k) = 3 * k"
    by (auto simp: mesh_inv_def)
  have "\<not> (sint n < 0 \<or> sint (nnodes nelems) \<le> sint n)"
    if e: "e < length (ptr m) - 1" and n: "n \<in> set (element_nodes (conn m) (ptr m) e)" for e n
  proof -
    from e len assms(1) have e': "int e < sint nelems" by simp
    from pk [of "int e + 1"] e' have "sint (ptr m ! Suc e) = 3 * (int e + 1)"
      by (simp add: nat_add_distrib)
    with n obtain j where "n = conn m ! j" "j < nat (3 * (int e + 1))"
      by (auto simp: element_nodes_def)
    moreover from this e' len have "j < length (conn m)" by simp
    ultimately show ?thesis
      using mesh_inv_conn_range [OF assms(3), of j] sint_nnodes [OF assms(1,2)] by simp
  qed
  then show ?thesis
    by (auto simp: setElementConnectivity_check_def list_ex_iff)
qed

text \<open>
  Claim C10.  For every number of elements \<open>nelems \<ge> 1\<close> whose triple is an
  \<^verbatim>\<open>int\<close> (\<open>3 * nelems \<le> 2147483647\<close>, the size of \<open>conn\<close>), the beam driver builds
  its connectivity without leaving its arrays, element \<open>i\<close> gets the nodes \<open>2i\<close>,
  \<open>2i+1\<close>, \<open>2i+2\<close> at \<open>conn[3i]\<close>, \<open>conn[3i+1]\<close>, \<open>conn[3i+2]\<close>, \<open>nnodes\<close> is
  \<open>2 * nelems + 1\<close>, every node id of the connectivity lies in \<open>[0, nnodes)\<close>, and the
  check that raises \<open>PartitionError\<close> for a node id outside \<open>[0, totalNodes)\<close> passes.
\<close>

theorem beam_connectivity_in_range:
  assumes "1 \<le> sint nelems" and "3 * sint nelems \<le> 2147483647"
  shows "\<exists>m. beam_mesh beam nelems junk_e junk_c junk_p = Inr m \<and>
    length (conn m) = nat (3 * sint nelems) \<and>
    (\<forall>i. 0 \<le> i \<and> i < sint nelems \<longrightarrow>
       sint (conn m ! nat (3 * i)) = 2 * i \<and> sint (conn m ! nat (3 * i + 1)) = 2 * i + 1 \<and>
       sint (conn m ! nat (3 * i + 2)) = 2 * i + 2) \<and>
    sint (nnodes nelems) = 2 * sint nelems + 1 \<and>
    (\<forall>n \<in> set (conn m). 0 \<le> sint n \<and> sint n < sint (nnodes nelems)) \<and>
    setElementConnectivity_check (nnodes nelems) (conn m) (ptr m) = Inr ()"
proof -
  from assms have n0: "0 \<le> sint nelems" by simp
  from beam_mesh_inv [OF n0 assms(2), of beam junk_e junk_c junk_p] obtain m where
    m: "beam_mesh beam nelems junk_e junk_c junk_p = Inr m"
    and inv: "mesh_inv nelems (sint nelems) m"
    by blast
  note nn = sint_nnodes [OF n0 assms(2)]
  have "\<forall>n \<in> set (conn m). 0 \<le> sint n \<and> sint n < sint (nnodes nelems)"
    using mesh_inv_conn_range [OF inv] nn by (auto simp: in_set_conv_nth)
  moreover have "setElementConnectivity_check (nnodes nelems) (conn m) (ptr m) = Inr ()"
    by (rule mesh_inv_check [OF n0 assms(2) inv])
  moreover from inv have "length (conn m) = nat (3 * sint nelems)"
    "\<forall>i. 0 \<le> i \<and> i < sint nelems \<longrightarrow>
       sint (conn m ! nat (3 * i)) = 2 * i \<and> sint (conn m ! nat (3 * i + 1)) = 2 * i + 1 \<and>
       sint (conn m ! nat (3 * i + 2)) = 2 * i + 2"
    by (simp_all add: mesh_inv_def)
  ultimately show ?thesis using m nn by blast
qed

theorem beam_connectivity_in_range_witness:
  "1 \<le> sint (10 :: cint) \<and> 3 * sint (10 :: cint) \<le> 2147483647 \<and>
   (\<exists>m. beam_mesh (0::nat) 10 (\<lambda>_. 1) (\<lambda>_. - 5) (\<lambda>_. - 5) = Inr m \<and>
      length (conn m) = 30 \<and> sint (conn m ! 27) = 18 \<and> sint (conn m ! 28) = 19 \<and>
      sint (conn m ! 29) = 20 \<and> sint (nnodes 10) = 21 \<and>
      setElementConnectivity_check (nnodes 10) (conn m) (ptr m) = Inr ())"
proof -
  have h: "1 \<le> sint (10 :: cint)" "3 * sint (10 :: cint) \<le> 2147483647" by simp_all
  from beam_connectivity_in_range [OF h, of "0::nat" "\<lambda>_. 1" "\<lambda>_. - 5" "\<lambda>_. - 5"]
  obtain m where m: "beam_mesh (0::nat) 10 (\<lambda>_. 1) (\<lambda>_. - 5) (\<lambda>_. - 5) = Inr m"
    "length (conn m) = nat (3 * sint (10 :: cint))"
    "\<forall>i. 0 \<le> i \<and> i < sint (10 :: cint) \<longrightarrow>
       sint (conn m ! nat (3 * i)) = 2 * i \<and> sint (conn m ! nat (3 * i + 1)) = 2 * i + 1 \<and>
       sint (conn m ! nat (3 * i + 2)) = 2 * i + 2"
    "sint (nnodes (10 :: cint)) = 2 * sint (10 :: cint) + 1"
    "setElementConnectivity_check (nnodes 10) (conn m) (ptr m) = Inr ()"
    by blast
  from m(3) [rule_format, of 9]
  have "sint (conn m ! 27) = 18 \<and> sint (conn m ! 28) = 19 \<and> sint (conn m ! 29) = 20"
    by simp
  with m(1,2,4,5) h show ?thesis by auto
qed

lemma beam_mesh_values_bounded:
  assumes "0 \<le> sint nelems" "3 * sint nelems \<le> 2147483647"
    and "beam_mesh beam nelems junk_e junk_c junk_p = Inr m"
  shows "(\<forall>n \<in> set (conn m). 0 \<le> sint n \<and> sint n \<le> 2 * sint nelems) \<and>
         (\<forall>p \<in> set (ptr m). 0 \<le> sint p \<and> sint p \<le> 3 * sint nelems)"
proof -
  from beam_mesh_inv [OF assms(1,2), of beam junk_e junk_c junk_p] assms(3)
  have inv: "mesh_inv nelems (sint nelems) m" by auto
  have "0 \<le> sint n \<and> sint n \<le> 2 * sint nelems" if "n \<in> set (conn m)" for n
    using mesh_inv_conn_range [OF inv] that by (auto simp: in_set_conv_nth)
  moreover have "0 \<le> sint p \<and> sint p \<le> 3 * sint nelems" if "p \<in> set (ptr m)" for p
  proof -
    from that obtain j where j: "j < length (ptr m)" "p = ptr m ! j"
      by (auto simp: in_set_conv_nth)
    with inv have "int j \<le> sint nelems" by (simp add: mesh_inv_def)
    with inv have "sint (ptr m ! nat (int j)) = 3 * int j"
      unfolding mesh_inv_def by (metis of_nat_0_le_iff)
    with j \<open>int j \<le> sint nelems\<close> show ?thesis by simp
  qed
  ultimately show ?thesis by blast
qed

text \<open>
  Beyond that bound the driver's arithmetic wraps: with 715827883 elements the size
  \<open>3 * nelems\<close> of \<open>conn\<close> is negative and the allocation raises, and with
  1073741824 elements \<open>nnodes\<close> is negative.
\<close>

lemma beam_mesh_beyond: "beam_mesh beam 715827883 junk_e junk_c junk_p = Inl BadArrayLength"
proof -
  have "sint (715827883 :: cint) = 715827883" "sint (3 * 715827883 :: cint) = - 2147483647"
    by simp_all
  then show ?thesis
    unfolding beam_mesh_def new_array_def by (simp del: upt.simps)
qed

lemma nnodes_wraps: "sint (nnodes 1073741824) = - 2147483647"
  by (simp add: nnodes_def)

section \<open>Proofs: the ownership ranges\<close>

lemma nodesPerProc_div: "0 \<le> N \<Longrightarrow> 1 \<le> P \<Longrightarrow> nodesPerProc N P = N div P"
  by (simp add: nodesPerProc_def signed_divide_int_def sgn_if)

lemma nodesPerProc_bounds:
  assumes "0 \<le> N" "1 \<le> P"
  shows "0 \<le> nodesPerProc N P" "nodesPerProc N P * P \<le> N"
        "0 \<le> r \<Longrightarrow> r \<le> P \<Longrightarrow> r * nodesPerProc N P \<le> N"
proof -
  let ?q = "nodesPerProc N P"
  from assms show q0: "0 \<le> ?q" by (simp add: nodesPerProc_div pos_imp_zdiv_nonneg_iff)
  have "N = ?q * P + N mod P" using assms by (simp add: nodesPerProc_div)
  moreover have "0 \<le> N mod P" using assms by simp
  ultimately show qP: "?q * P \<le> N" by linarith
  assume "0 \<le> r" "r \<le> P"
  then have "r * ?q \<le> P * ?q" using q0 by (simp add: mult_right_mono)
  with qP show "r * ?q \<le> N" by (simp add: mult.commute)
qed

lemma owner_unique:
  assumes N: "0 \<le> N" and P: "1 \<le> P" and n: "0 \<le> n" "n < N"
  shows "\<exists>!r. 0 \<le> r \<and> r < P \<and> firstNode N P r \<le> n \<and> n < lastNode N P r"
proof -
  let ?q = "nodesPerProc N P"
  note b = nodesPerProc_bounds[OF N P]
  show ?thesis
  proof (cases "n < (P - 1) * ?q")
    case True
    with n(1) b(1) have q: "0 < ?q"
      by (metis less_le mult_zero_right not_less)
    define r where "r = n div ?q"
    have r0: "0 \<le> r" using n(1) q by (simp add: r_def pos_imp_zdiv_nonneg_iff)
    have lo: "r * ?q \<le> n"
    proof -
      have "n = ?q * r + n mod ?q" by (simp add: r_def)
      moreover have "0 \<le> n mod ?q" using q by simp
      ultimately show ?thesis by (simp add: algebra_simps)
    qed
    have hi: "n < (r + 1) * ?q"
    proof -
      have "n = ?q * r + n mod ?q" by (simp add: r_def)
      moreover have "n mod ?q < ?q" using q by simp
      ultimately show ?thesis by (simp add: algebra_simps)
    qed
    have rP: "r < P - 1"
    proof (rule ccontr)
      assume "\<not> r < P - 1"
      then have "(P - 1) * ?q \<le> r * ?q" using b(1) by (simp add: mult_right_mono)
      with lo True show False by linarith
    qed
    have ex: "0 \<le> r \<and> r < P \<and> firstNode N P r \<le> n \<and> n < lastNode N P r"
      using r0 rP lo hi by (simp add: firstNode_def lastNode_def)
    have un: "r' = r" if h: "0 \<le> r' \<and> r' < P \<and> firstNode N P r' \<le> n \<and> n < lastNode N P r'" for r'
    proof -
      have ne: "r' \<noteq> P - 1" using h True by (auto simp: firstNode_def)
      with h have lo': "r' * ?q \<le> n" and hi': "n < (r' + 1) * ?q"
        by (simp_all add: firstNode_def lastNode_def)
      have "r' \<le> r"
      proof (rule ccontr)
        assume "\<not> r' \<le> r"
        then have "r + 1 \<le> r'" by simp
        then have "(r + 1) * ?q \<le> r' * ?q" using b(1) by (simp add: mult_right_mono)
        with hi lo' show False by linarith
      qed
      moreover have "r \<le> r'"
      proof (rule ccontr)
        assume "\<not> r \<le> r'"
        then have "r' + 1 \<le> r" by simp
        then have "(r' + 1) * ?q \<le> r * ?q" using b(1) by (simp add: mult_right_mono)
        with hi' lo show False by linarith
      qed
      ultimately show ?thesis by simp
    qed
    from ex un show ?thesis by blast
  next
    case False
    have ex: "0 \<le> P - 1 \<and> P - 1 < P \<and> firstNode N P (P - 1) \<le> n \<and> n < lastNode N P (P - 1)"
      using False P n by (simp add: firstNode_def lastNode_def)
    have un: "r' = P - 1" if h: "0 \<le> r' \<and> r' < P \<and> firstNode N P r' \<le> n \<and> n < lastNode N P r'" for r'
    proof (rule ccontr)
      assume ne: "r' \<noteq> P - 1"
      with h have hi': "n < (r' + 1) * ?q" by (simp add: lastNode_def)
      from ne h have "r' + 1 \<le> P - 1" by simp
      then have "(r' + 1) * ?q \<le> (P - 1) * ?q" using b(1) by (simp add: mult_right_mono)
      with hi' False show False by linarith
    qed
    from ex un show ?thesis by blast
  qed
qed

lemma owned_sum:
  assumes "0 \<le> N" "1 \<le> P"
  shows "(\<Sum>r = 0..<P. numOwnedNodes N P r) = N"
proof -
  let ?q = "nodesPerProc N P"
  have split: "{0..<P} = insert (P - 1) {0..<P - 1}" using assms(2) by auto
  have "(\<Sum>r = 0..<P - 1. numOwnedNodes N P r) = (\<Sum>r = 0..<P - 1. ?q)"
    by (rule sum.cong) (auto simp: numOwnedNodes_def)
  also have "\<dots> = (P - 1) * ?q" using assms(2) by simp
  finally have "(\<Sum>r = 0..<P - 1. numOwnedNodes N P r) = (P - 1) * ?q" .
  moreover have "numOwnedNodes N P (P - 1) = N - ?q * (P - 1)" by (simp add: numOwnedNodes_def)
  ultimately show ?thesis by (subst split) (simp add: algebra_simps)
qed

text \<open>
  Under the hypotheses of the claim no value the driver computes from \<open>N\<close>, \<open>sz\<close> and
  \<open>rank\<close> leaves \<open>[0, max N sz]\<close>: for a node count and a communicator size that are
  \<^verbatim>\<open>int\<close>s the 32-bit arithmetic of the driver does not wrap, and \<open>int\<close> models it.
\<close>

lemma partition_no_wrap:
  assumes "0 \<le> N" "1 \<le> P" "0 \<le> r" "r < P"
  shows "0 \<le> nodesPerProc N P \<and> nodesPerProc N P \<le> N"
    and "0 \<le> P - 1 \<and> r + 1 \<le> P"
    and "0 \<le> nodesPerProc N P * (P - 1) \<and> nodesPerProc N P * (P - 1) \<le> N"
    and "0 \<le> N - nodesPerProc N P * (P - 1) \<and> N - nodesPerProc N P * (P - 1) \<le> N"
    and "0 \<le> r * nodesPerProc N P \<and> r * nodesPerProc N P \<le> N"
    and "0 \<le> (r + 1) * nodesPerProc N P \<and> (r + 1) * nodesPerProc N P \<le> N"
proof -
  note b = nodesPerProc_bounds [OF assms(1,2)]
  from b(1) b(3) [of 1] assms(2) show "0 \<le> nodesPerProc N P \<and> nodesPerProc N P \<le> N"
    by simp
  from assms show "0 \<le> P - 1 \<and> r + 1 \<le> P" by simp
  from b(1) b(3) [of "P - 1"] assms(2)
  show 3: "0 \<le> nodesPerProc N P * (P - 1) \<and> nodesPerProc N P * (P - 1) \<le> N"
    by (simp add: mult.commute)
  then show "0 \<le> N - nodesPerProc N P * (P - 1) \<and> N - nodesPerProc N P * (P - 1) \<le> N"
    by simp
  from b(1) b(3) [of r] assms show "0 \<le> r * nodesPerProc N P \<and> r * nodesPerProc N P \<le> N"
    by simp
  from b(1) b(3) [of "r + 1"] assms
  show "0 \<le> (r + 1) * nodesPerProc N P \<and> (r + 1) * nodesPerProc N P \<le> N"
    by simp
qed

text \<open>
  Claim C4.  For every node count \<open>N \<ge> 0\<close> and every number of processes \<open>P \<ge> 1\<close>:
  each rank owns the contiguous range \<open>firstNode ..< lastNode\<close> inside \<open>[0, N)\<close>, whose
  length is the rank's \<open>numOwnedNodes\<close>; the first range starts at 0, each range starts
  where the previous one ends and the last one ends at \<open>N\<close>; every rank but the last owns
  \<open>N div P\<close> nodes and the last one gets the remainder on top; the owned counts sum to
  \<open>N\<close>; and every node of \<open>[0, N)\<close> lies in the range of exactly one rank.
\<close>

theorem partition_exact:
  assumes "0 \<le> N" "1 \<le> P"
  shows "(\<forall>r. 0 \<le> r \<and> r < P \<longrightarrow>
            0 \<le> firstNode N P r \<and> firstNode N P r \<le> lastNode N P r \<and> lastNode N P r \<le> N \<and>
            numOwnedNodes N P r = lastNode N P r - firstNode N P r) \<and>
         firstNode N P 0 = 0 \<and> lastNode N P (P - 1) = N \<and>
         (\<forall>r. 0 \<le> r \<and> r < P - 1 \<longrightarrow>
            lastNode N P r = firstNode N P (r + 1) \<and> numOwnedNodes N P r = N div P) \<and>
         numOwnedNodes N P (P - 1) = N div P + N mod P \<and>
         (\<Sum>r = 0..<P. numOwnedNodes N P r) = N \<and>
         (\<forall>n. 0 \<le> n \<and> n < N \<longrightarrow>
            (\<exists>!r. 0 \<le> r \<and> r < P \<and> firstNode N P r \<le> n \<and> n < lastNode N P r))"
proof -
  let ?q = "nodesPerProc N P"
  note b = nodesPerProc_bounds[OF assms]
  note d = nodesPerProc_div[OF assms]
  have 1: "0 \<le> firstNode N P r \<and> firstNode N P r \<le> lastNode N P r \<and> lastNode N P r \<le> N \<and>
            numOwnedNodes N P r = lastNode N P r - firstNode N P r" if "0 \<le> r \<and> r < P" for r
  proof (cases "r = P - 1")
    case True
    then show ?thesis using that b(1) b(3)[of r]
      by (simp add: firstNode_def lastNode_def numOwnedNodes_def mult.commute)
  next
    case False
    then show ?thesis using that b(1) b(3)[of "r + 1"]
      by (simp add: firstNode_def lastNode_def numOwnedNodes_def algebra_simps)
  qed
  have 2: "firstNode N P 0 = 0 \<and> lastNode N P (P - 1) = N"
    by (simp add: firstNode_def lastNode_def)
  have 3: "lastNode N P r = firstNode N P (r + 1) \<and> numOwnedNodes N P r = N div P"
    if "0 \<le> r \<and> r < P - 1" for r
    using that d by (simp add: firstNode_def lastNode_def numOwnedNodes_def)
  have "N = ?q * P + N mod P" by (simp add: d)
  then have 4: "numOwnedNodes N P (P - 1) = N div P + N mod P"
    by (simp add: numOwnedNodes_def d algebra_simps)
  show ?thesis
    using 1 2 3 4 owned_sum[OF assms] owner_unique[OF assms] by blast
qed


theorem partition_exact_witness:
  "(0::int) \<le> sint (totalNodes 30 30) \<and> (1::int) \<le> 4 \<and>
   firstNode (sint (totalNodes 30 30)) 4 0 = 0 \<and>
   lastNode (sint (totalNodes 30 30)) 4 3 = 961 \<and>
   numOwnedNodes (sint (totalNodes 30 30)) 4 3 = 240 + 1 \<and>
   (\<Sum>r = 0..<4. numOwnedNodes (sint (totalNodes 30 30)) 4 r) = 961"
proof -
  have t: "sint (totalNodes 30 30) = 961" by (simp add: totalNodes_def)
  have h: "(0::int) \<le> sint (totalNodes 30 30)" "(1::int) \<le> 4" by (simp_all add: t)
  from partition_exact [OF h]
  have "firstNode (sint (totalNodes 30 30)) 4 0 = 0 \<and>
        lastNode (sint (totalNodes 30 30)) 4 (4 - 1) = sint (totalNodes 30 30) \<and>
        numOwnedNodes (sint (totalNodes 30 30)) 4 (4 - 1) =
          sint (totalNodes 30 30) div 4 + sint (totalNodes 30 30) mod 4 \<and>
        (\<Sum>r = 0..<4. numOwnedNodes (sint (totalNodes 30 30)) 4 r) = sint (totalNodes 30 30)"
    by blast
  then show ?thesis using h by (simp add: t)
qed

section \<open>Proofs: the assembled residual\<close>

text \<open>
  The assembly produces a vector whenever the three input vectors have the size of the
  system and no element callable signals an invalid state.
\<close>

lemma add_residuals_total:
  "\<forall>e \<in> set es. \<forall>x y z. evalResidual e x y z \<noteq> None \<Longrightarrow>
   \<exists>r'. add_residuals vpn es u v w r = Inr r'"
proof (induction es arbitrary: r)
  case Nil
  then show ?case by simp
next
  case (Cons e es)
  define ds where "ds = dofs vpn (nodes e)"
  from Cons.prems obtain lr where
    "evalResidual e (gather ds u) (gather ds v) (gather ds w) = Some lr"
    by (metis list.set_intros(1) not_Some_eq)
  moreover from Cons.prems have "\<forall>e \<in> set es. \<forall>x y z. evalResidual e x y z \<noteq> None" by simp
  from Cons.IH [OF this] obtain r' where
    "add_residuals vpn es u v w (add_local ds lr r) = Inr r'" by blast
  ultimately show ?case by (simp add: ds_def)
qed

lemma local_residuals_total:
  "\<forall>es \<in> set ps. \<forall>e \<in> set es. \<forall>x y z. evalResidual e x y z \<noteq> None \<Longrightarrow>
   \<exists>rs. local_residuals vpn n ps u v w = Inr rs"
proof (induction ps)
  case Nil
  then show ?case by simp
next
  case (Cons es ps)
  from Cons.prems have "\<forall>e \<in> set es. \<forall>x y z. evalResidual e x y z \<noteq> None" by simp
  from add_residuals_total [OF this] obtain r where
    "add_residuals vpn es u v w (replicate n 0) = Inr r" by blast
  moreover from Cons.prems Cons.IH obtain rs where
    "local_residuals vpn n ps u v w = Inr rs" by auto
  ultimately show ?case by simp
qed

lemma assembleResidual_total:
  assumes "length u = ndof a" "length v = ndof a" "length w = ndof a"
    and "\<forall>es \<in> set (procs a). \<forall>e \<in> set es. \<forall>x y z. evalResidual e x y z \<noteq> None"
  shows "\<exists>r. assembleResidual a u v w = Inr r"
proof -
  from local_residuals_total [OF assms(4)] obtain rs where
    "local_residuals (varsPerNode a) (ndof a) (procs a) u v w = Inr rs" by blast
  with assms(1-3) show ?thesis by (simp add: assembleResidual_def)
qed

lemma length_add_local: "length (add_local ds r x) = length x"
proof -
  have "length (fold (\<lambda>k y. y[ds ! k := y ! (ds ! k) + r k]) ks x) = length x" for ks
    by (induction ks arbitrary: x) simp_all
  then show ?thesis by (simp add: add_local_def)
qed

lemma length_add_residuals:
  "add_residuals vpn es u v w r = Inr r' \<Longrightarrow> length r' = length r"
  by (induction es arbitrary: r) (auto simp: Let_def length_add_local split: option.splits)

lemma length_local_residuals:
  "local_residuals vpn n ps u v w = Inr rs \<Longrightarrow> \<forall>r \<in> set rs. length r = n"
proof (induction ps arbitrary: rs)
  case Nil
  then show ?case by simp
next
  case (Cons es ps)
  from Cons.prems obtain r rs' where
    r: "add_residuals vpn es u v w (replicate n 0) = Inr r"
    and rs': "local_residuals vpn n ps u v w = Inr rs'" and eq: "rs = r # rs'"
    by (auto split: sum.splits)
  from length_add_residuals [OF r] have "length r = n" by simp
  with Cons.IH [OF rs'] eq show ?case by simp
qed

lemma length_fold_map2:
  "\<forall>r \<in> set rs. length r = length acc \<Longrightarrow>
   length (fold (\<lambda>r acc. map2 (+) acc r) rs (acc :: gvec)) = length acc"
  by (induction rs arbitrary: acc) simp_all

lemma length_reduce_vec:
  "\<forall>r \<in> set rs. length r = n \<Longrightarrow> length (reduce_vec n rs) = n"
  using length_fold_map2 [of rs "replicate n 0"] by (simp add: reduce_vec_def)

lemma length_zero_rows: "length (fold (\<lambda>d y. y[d := 0::real]) cs x) = length x"
  by (induction cs arbitrary: x) simp_all

lemma zero_rows_keeps_zero:
  "d < length x \<Longrightarrow> x ! d = 0 \<Longrightarrow> fold (\<lambda>d y. y[d := 0::real]) cs x ! d = 0"
proof (induction cs arbitrary: x)
  case Nil
  then show ?case by simp
next
  case (Cons c cs)
  have "x[c := 0] ! d = 0" using Cons.prems by (cases "c = d") simp_all
  with Cons.prems show ?case by (simp add: Cons.IH)
qed

lemma zero_rows_zero:
  "d \<in> set cs \<Longrightarrow> d < length x \<Longrightarrow> fold (\<lambda>d y. y[d := 0::real]) cs x ! d = 0"
proof (induction cs arbitrary: x)
  case Nil
  then show ?case by simp
next
  case (Cons c cs)
  show ?case
  proof (cases "c = d")
    case True
    with Cons.prems show ?thesis by (simp add: zero_rows_keeps_zero)
  next
    case False
    with Cons.prems show ?thesis by (simp add: Cons.IH)
  qed
qed


text \<open>
  Claim C3.  For every state, velocity and acceleration: the vector that
  \<open>assembleResidual\<close> produces keeps every degree of freedom of the system (its length
  is \<open>ndof\<close>) and is exactly zero at every constrained degree of freedom, and it still
  is after \<open>applyBoundaryConditions\<close> is applied to it.
\<close>

theorem residual_zero_at_constrained:
  assumes "finalized a" and "assembleResidual a u v w = Inr r"
  shows "length r = ndof a \<and>
         (\<forall>d \<in> set (constrained a). d < ndof a \<longrightarrow>
            r ! d = 0 \<and> applyBoundaryConditions a r ! d = 0) \<and>
         length (applyBoundaryConditions a r) = ndof a"
proof -
  from assms(2) obtain rs where
    rs: "local_residuals (varsPerNode a) (ndof a) (procs a) u v w = Inr rs"
    and r: "r = applyBoundaryConditions a (reduce_vec (ndof a) rs)"
    by (auto simp: assembleResidual_def split: if_splits sum.splits)
  have len: "length (reduce_vec (ndof a) rs) = ndof a"
    by (rule length_reduce_vec [OF length_local_residuals [OF rs]])
  then have lr: "length r = ndof a"
    by (simp add: r applyBoundaryConditions_def length_zero_rows)
  have "r ! d = 0 \<and> applyBoundaryConditions a r ! d = 0"
    if "d \<in> set (constrained a)" "d < ndof a" for d
  proof -
    have "r ! d = 0"
      using that len by (simp add: r applyBoundaryConditions_def zero_rows_zero)
    moreover have "applyBoundaryConditions a r ! d = 0"
      using that lr by (simp add: applyBoundaryConditions_def zero_rows_zero)
    ultimately show ?thesis ..
  qed
  with lr show ?thesis by (simp add: applyBoundaryConditions_def length_zero_rows)
qed

lemma two_bars_simps:
  "varsPerNode two_bars = 1" "numNodes two_bars = 3"
  "procs two_bars = [[bar 0 1 2], [bar 1 2 3]]" "constrained two_bars = [0]"
  "ndof two_bars = 3"
  by (simp_all add: two_bars_def ndof_def)

lemma finalized_two_bars: "finalized two_bars"
  by (simp add: finalized_def two_bars_simps bar_def)

lemma dofs_bar: "dofs 1 (nodes (bar i j k)) = [i, j]"
  by (simp add: dofs_def bar_def)

lemma residual_two_bars: "assembleResidual two_bars [1, 2, 4] [0, 0, 0] [0, 0, 0] = Inr [0, - 4, 6]"
  by (simp add: assembleResidual_def two_bars_simps dofs_bar Let_def gather_def add_local_def
      reduce_vec_def applyBoundaryConditions_def bar_def dofs_def eval_nat_numeral)

theorem residual_zero_at_constrained_witness:
  "finalized two_bars \<and>
   assembleResidual two_bars [1, 2, 4] [0, 0, 0] [0, 0, 0] = Inr [0, - 4, 6] \<and>
   length [0, - 4, 6 :: real] = ndof two_bars \<and> [0, - 4, 6 :: real] ! 0 = 0 \<and>
   applyBoundaryConditions two_bars [0, - 4, 6] ! 0 = 0"
  using residual_zero_at_constrained [OF finalized_two_bars residual_two_bars]
    finalized_two_bars residual_two_bars
  by (simp add: two_bars_simps)

section \<open>Proofs: the assembled Jacobian\<close>




lemma fold_row_entry:
  "fold (\<lambda>l m. m((x, ds ! l) := m (x, ds ! l) + f l)) ls (m :: gmat) p =
   m p + (\<Sum>l\<leftarrow>ls. if (x, ds ! l) = p then f l else 0)"
  by (induction ls arbitrary: m) auto

lemma add_block_entry: "add_block ds B m p = m p + block_entry ds B p"
proof -
  have "fold (\<lambda>k m. fold (\<lambda>l m. m((ds ! k, ds ! l) := m (ds ! k, ds ! l) + B k l)) ls m) ks m p =
        m p + (\<Sum>k\<leftarrow>ks. \<Sum>l\<leftarrow>ls. if (ds ! k, ds ! l) = p then B k l else 0)" for ks ls
    by (induction ks arbitrary: m) (simp_all add: fold_row_entry)
  then show ?thesis by (simp add: add_block_def block_entry_def)
qed

lemma block_entry_linear:
  "block_entry ds (\<lambda>k l. alpha * K k l + beta * C k l + gamma * M k l) p =
   alpha * block_entry ds K p + beta * block_entry ds C p + gamma * block_entry ds M p"
proof -
  have c: "(if b then alpha * x + beta * y + gamma * z else 0) =
        alpha * (if b then x else 0) + beta * (if b then y else 0) + gamma * (if b then z else 0)"
    for b and x y z :: real by simp
  show ?thesis
    unfolding block_entry_def c
    by (simp add: sum_list_addf sum_list_const_mult)
qed


lemma add_jacobians_entry:
  "add_jacobians vpn alpha beta gamma es u v w m = Inr A \<Longrightarrow>
   A p = m p + alpha * (\<Sum>e\<leftarrow>es. contribution stiffness vpn u v w e p)
             + beta * (\<Sum>e\<leftarrow>es. contribution damping vpn u v w e p)
             + gamma * (\<Sum>e\<leftarrow>es. contribution mass vpn u v w e p)"
proof (induction es arbitrary: m)
  case Nil
  then show ?case by simp
next
  case (Cons e es)
  define ds where "ds = dofs vpn (nodes e)"
  from Cons.prems obtain K C M where
    ev: "evalJacobian e (gather ds u) (gather ds v) (gather ds w) = Some (K, C, M)"
    and rest: "add_jacobians vpn alpha beta gamma es u v w
            (add_block ds (\<lambda>k l. alpha * K k l + beta * C k l + gamma * M k l) m) = Inr A"
    by (auto simp: Let_def ds_def split: option.splits)
  have c: "contribution stiffness vpn u v w e p = block_entry ds K p"
    "contribution damping vpn u v w e p = block_entry ds C p"
    "contribution mass vpn u v w e p = block_entry ds M p"
    using ev by (simp_all add: contribution_def Let_def ds_def [symmetric] stiffness_def damping_def mass_def)
  have "A p = add_block ds (\<lambda>k l. alpha * K k l + beta * C k l + gamma * M k l) m p
             + alpha * (\<Sum>e\<leftarrow>es. contribution stiffness vpn u v w e p)
             + beta * (\<Sum>e\<leftarrow>es. contribution damping vpn u v w e p)
             + gamma * (\<Sum>e\<leftarrow>es. contribution mass vpn u v w e p)"
    by (rule Cons.IH [OF rest])
  also have "add_block ds (\<lambda>k l. alpha * K k l + beta * C k l + gamma * M k l) m p =
      m p + (alpha * block_entry ds K p + beta * block_entry ds C p + gamma * block_entry ds M p)"
    by (simp only: add_block_entry block_entry_linear)
  finally show ?case
    by (simp add: c algebra_simps)
qed

lemma local_jacobians_entry:
  "local_jacobians vpn alpha beta gamma ps u v w = Inr ms \<Longrightarrow>
   (\<Sum>m\<leftarrow>ms. m p) = alpha * (\<Sum>e\<leftarrow>concat ps. contribution stiffness vpn u v w e p)
             + beta * (\<Sum>e\<leftarrow>concat ps. contribution damping vpn u v w e p)
             + gamma * (\<Sum>e\<leftarrow>concat ps. contribution mass vpn u v w e p)"
proof (induction ps arbitrary: ms)
  case Nil
  then show ?case by simp
next
  case (Cons es ps)
  from Cons.prems obtain m ms' where
    m: "add_jacobians vpn alpha beta gamma es u v w (\<lambda>p. 0) = Inr m"
    and ms': "local_jacobians vpn alpha beta gamma ps u v w = Inr ms'" and eq: "ms = m # ms'"
    by (auto split: sum.splits)
  from add_jacobians_entry [OF m, of p] Cons.IH [OF ms'] show ?case
    by (simp add: eq algebra_simps)
qed

lemma reduce_mat_entry: "reduce_mat ms p = (\<Sum>m\<leftarrow>ms. m p)"
proof -
  have "fold (\<lambda>m acc. (\<lambda>p. acc p + m p)) ms acc p = acc p + (\<Sum>m\<leftarrow>ms. m p)" for acc :: gmat
    by (induction ms arbitrary: acc) simp_all
  then show ?thesis by (simp add: reduce_mat_def)
qed

lemma assembleMatrix_entry:
  assumes "assembleMatrix a alpha beta gamma u v w = Inr A"
  shows "A p = alpha * scattered stiffness a u v w p + beta * scattered damping a u v w p
               + gamma * scattered mass a u v w p"
proof -
  from assms obtain ms where
    ms: "local_jacobians (varsPerNode a) alpha beta gamma (procs a) u v w = Inr ms"
    and A: "A = reduce_mat ms"
    by (auto simp: assembleMatrix_def split: if_splits sum.splits)
  from local_jacobians_entry [OF ms, of p] show ?thesis
    by (simp add: A reduce_mat_entry scattered_def)
qed

lemma applyBCs_mat_unconstrained:
  "i \<notin> set cs \<Longrightarrow> j \<notin> set cs \<Longrightarrow> applyBCs_mat cs m (i, j) = m (i, j)"
  unfolding applyBCs_mat_def by (induction cs arbitrary: m) auto

lemma identity_stays:
  assumes "\<forall>j. m (d, j) = (if j = d then 1 else 0) \<and> m (j, d) = (if j = d then 1 else 0)"
  shows "applyBCs_mat cs m (d, j) = (if j = d then 1 else 0) \<and>
         applyBCs_mat cs m (j, d) = (if j = d then 1 else 0)"
  using assms unfolding applyBCs_mat_def
proof (induction cs arbitrary: m)
  case Nil
  then show ?case by simp
next
  case (Cons c cs)
  let ?m = "\<lambda>(i, j). if i = c \<or> j = c then (if i = j then 1 else 0 :: real) else m (i, j)"
  have "\<forall>j. ?m (d, j) = (if j = d then 1 else 0) \<and> ?m (j, d) = (if j = d then 1 else 0)"
    using Cons.prems by auto
  from Cons.IH [OF this] show ?case by simp
qed

lemma applyBCs_mat_constrained:
  "d \<in> set cs \<Longrightarrow>
   applyBCs_mat cs m (d, j) = (if j = d then 1 else 0) \<and>
   applyBCs_mat cs m (j, d) = (if j = d then 1 else 0)"
proof (induction cs arbitrary: m)
  case Nil
  then show ?case by simp
next
  case (Cons c cs)
  let ?m = "\<lambda>(i, j). if i = c \<or> j = c then (if i = j then 1 else 0 :: real) else m (i, j)"
  have step: "applyBCs_mat (c # cs) m = applyBCs_mat cs ?m"
    by (simp add: applyBCs_mat_def)
  show ?case
  proof (cases "c = d")
    case True
    have "\<forall>j. ?m (d, j) = (if j = d then 1 else 0) \<and> ?m (j, d) = (if j = d then 1 else 0)"
      using True by auto
    from identity_stays [OF this] show ?thesis by (simp only: step)
  next
    case False
    with Cons.prems have "d \<in> set cs" by simp
    from Cons.IH [OF this] show ?thesis by (simp only: step)
  qed
qed

text \<open>
  Claim C2.  For every matrix \<open>A\<close> that \<open>assembleJacobian\<close> produces with the
  coefficients \<open>alpha\<close>, \<open>beta\<close>, \<open>gamma\<close>: every entry whose row and column are
  unconstrained is \<open>alpha\<cdot>K + beta\<cdot>C + gamma\<cdot>M\<close>, where \<open>K\<close>, \<open>C\<close>, \<open>M\<close> are the sums
  of the elements' stiffness-like, damping-like and mass-like block entries scattered to
  that entry; the row and the column of every constrained degree of freedom are those of
  the identity (one on the diagonal, zero elsewhere); and with \<open>alpha = 1\<close>,
  \<open>beta = gamma = 0\<close> the unconstrained entries are those of the stiffness matrix.
\<close>

theorem jacobian_linear_combination:
  assumes "finalized a" and "assembleJacobian a alpha beta gamma u v w = Inr A"
  shows "(\<forall>i j. i \<notin> set (constrained a) \<and> j \<notin> set (constrained a) \<longrightarrow>
            A (i, j) = alpha * scattered stiffness a u v w (i, j)
                     + beta * scattered damping a u v w (i, j)
                     + gamma * scattered mass a u v w (i, j)) \<and>
         (\<forall>d j. d \<in> set (constrained a) \<longrightarrow>
            A (d, j) = (if j = d then 1 else 0) \<and> A (j, d) = (if j = d then 1 else 0)) \<and>
         (alpha = 1 \<and> beta = 0 \<and> gamma = 0 \<longrightarrow>
            (\<forall>i j. i \<notin> set (constrained a) \<and> j \<notin> set (constrained a) \<longrightarrow>
               A (i, j) = scattered stiffness a u v w (i, j)))"
proof -
  from assms(2) obtain B where
    B: "assembleMatrix a alpha beta gamma u v w = Inr B"
    and A: "A = applyBCs_mat (constrained a) B"
    by (auto simp: assembleJacobian_def split: sum.splits)
  have 1: "A (i, j) = alpha * scattered stiffness a u v w (i, j)
                     + beta * scattered damping a u v w (i, j)
                     + gamma * scattered mass a u v w (i, j)"
    if "i \<notin> set (constrained a) \<and> j \<notin> set (constrained a)" for i j
    using that by (simp add: A applyBCs_mat_unconstrained assembleMatrix_entry [OF B])
  have 2: "A (d, j) = (if j = d then 1 else 0) \<and> A (j, d) = (if j = d then 1 else 0)"
    if "d \<in> set (constrained a)" for d j
    unfolding A by (rule applyBCs_mat_constrained [OF that])
  from 1 have 3: "A (i, j) = scattered stiffness a u v w (i, j)"
    if "alpha = 1 \<and> beta = 0 \<and> gamma = 0" "i \<notin> set (constrained a) \<and> j \<notin> set (constrained a)" for i j
    using that by simp
  from 1 2 3 show ?thesis by blast
qed

lemma jacobian_two_bars:
  "\<exists>A. assembleJacobian two_bars 1 0 10 [1, 2, 4] [0, 0, 0] [0, 0, 0] = Inr A"
  by (simp add: assembleJacobian_def assembleMatrix_def two_bars_simps dofs_bar Let_def bar_def dofs_def)

lemma scattered_two_bars:
  "scattered stiffness two_bars [1, 2, 4] [0, 0, 0] [0, 0, 0] (1, 1) = 5"
  "scattered damping two_bars [1, 2, 4] [0, 0, 0] [0, 0, 0] (1, 1) = 0"
  "scattered mass two_bars [1, 2, 4] [0, 0, 0] [0, 0, 0] (1, 1) = 2"
  by (simp_all add: scattered_def contribution_def two_bars_simps Let_def bar_def dofs_def
      block_entry_def stiffness_def damping_def mass_def)

theorem jacobian_linear_combination_witness:
  "finalized two_bars \<and>
   (\<exists>A. assembleJacobian two_bars 1 0 10 [1, 2, 4] [0, 0, 0] [0, 0, 0] = Inr A \<and>
      A (1, 1) = 1 * 5 + 0 * 0 + 10 * 2 \<and> A (0, 0) = 1 \<and> A (0, 1) = 0 \<and> A (1, 0) = 0)"
proof -
  from jacobian_two_bars obtain A where
    A: "assembleJacobian two_bars 1 0 10 [1, 2, 4] [0, 0, 0] [0, 0, 0] = Inr A" ..
  note t = jacobian_linear_combination [OF finalized_two_bars A]
  from t have "A (1, 1) = 1 * scattered stiffness two_bars [1, 2, 4] [0, 0, 0] [0, 0, 0] (1, 1)
                 + 0 * scattered damping two_bars [1, 2, 4] [0, 0, 0] [0, 0, 0] (1, 1)
                 + 10 * scattered mass two_bars [1, 2, 4] [0, 0, 0] [0, 0, 0] (1, 1)"
    by (simp add: two_bars_simps)
  with scattered_two_bars have 1: "A (1, 1) = 1 * 5 + 0 * 0 + 10 * 2" by simp
  from t have "A (0, 0) = 1 \<and> A (0, 1) = 0 \<and> A (1, 0) = 0"
    by (simp add: two_bars_simps)
  with 1 A finalized_two_bars show ?thesis by blast
qed

section \<open>Proofs: the round trip of a linear problem\<close>






















end
